theory Spec2Isabelle
  imports Main
begin

section \<open>MatLock: a mutex built from a boolean flag and a one-slot channel\<close>

text \<open>
  The Go source (\<^verbatim>\<open>MatLock.go\<close>):
  \<^verbatim>\<open>
  type MatLock struct {
      locked bool
      wait chan struct{}
  }
  func NewQutex() *MatLock {
      return &MatLock{ locked: false, wait: make(chan struct{}, 1) }
  }
  func (q *MatLock) Lock() {
      for {
          if !q.locked {
              q.locked = true
              return
          }
          <-q.wait
      }
  }
  func (q *MatLock) Unlock() {
      if !q.locked {
          panic("unlock of unlocked qutex")
      }
      q.locked = false
      select {
      case q.wait <- struct{}{}:
      default:
      }
  }
  \<close>
\<close>

subsection \<open>Buffered channels of \<^verbatim>\<open>struct{}\<close>\<close>

text \<open>
  A buffered Go channel is its capacity and the queue of values it holds. The element
  type \<^verbatim>\<open>struct{}\<close> has one value, so the queue is a \<^typ>\<open>unit list\<close>.
\<close>

record chan =
  cap :: nat
  buf :: "unit list"

text \<open>\<^verbatim>\<open>make(chan struct{}, n)\<close>: an empty channel of capacity \<open>n\<close>.\<close>

definition make_chan :: "nat \<Rightarrow> chan" where
  "make_chan n = \<lparr>cap = n, buf = []\<rparr>"

text \<open>
  \<^verbatim>\<open>select { case c <- v: default: }\<close>: the send is taken when the buffer has room,
  the default branch otherwise. \<open>None\<close> is the default branch.
\<close>

definition try_send :: "chan \<Rightarrow> unit \<Rightarrow> chan option" where
  "try_send c v = (if length (buf c) < cap c then Some (c\<lparr>buf := buf c @ [v]\<rparr>) else None)"

text \<open>
  \<^verbatim>\<open><-c\<close>: the receive takes the oldest buffered value; on an empty buffer the
  goroutine parks, which is \<open>None\<close>.
\<close>

definition recv :: "chan \<Rightarrow> (unit \<times> chan) option" where
  "recv c = (case buf c of [] \<Rightarrow> None | v # vs \<Rightarrow> Some (v, c\<lparr>buf := vs\<rparr>))"

subsection \<open>The lock\<close>

record MatLock =
  locked :: bool
  wait :: chan

definition NewQutex :: MatLock where
  "NewQutex = \<lparr>locked = False, wait = make_chan 1\<rparr>"

text \<open>
  What a call does, run alone on the lock: it returns, it parks for good on the
  receive, or it panics with a message. Each outcome carries the state of the lock
  at that moment.
\<close>

datatype outcome =
  Returns MatLock
| Blocks MatLock
| Panics string MatLock

fun state_of :: "outcome \<Rightarrow> MatLock" where
  "state_of (Returns q) = q"
| "state_of (Blocks q) = q"
| "state_of (Panics m q) = q"

fun is_panic :: "outcome \<Rightarrow> bool" where
  "is_panic (Panics m q) = True"
| "is_panic (Returns q) = False"
| "is_panic (Blocks q) = False"

fun is_blocked :: "outcome \<Rightarrow> bool" where
  "is_blocked (Blocks q) = True"
| "is_blocked (Returns q) = False"
| "is_blocked (Panics m q) = False"

text \<open>
  One pass through the body of the \<^verbatim>\<open>for\<close> loop of \<^verbatim>\<open>Lock\<close>: the flag is free and
  is taken (\<open>Acquired\<close>, the \<^verbatim>\<open>return\<close>), or the flag is set and a signal is received
  (\<open>Received\<close>, the loop goes round), or the flag is set and the channel is empty
  (\<open>Parked\<close>, the goroutine waits on the receive).
\<close>

datatype iteration =
  Acquired MatLock
| Received MatLock
| Parked MatLock

definition Lock_body :: "MatLock \<Rightarrow> iteration" where
  "Lock_body q =
     (if \<not> locked q then Acquired (q\<lparr>locked := True\<rparr>)
      else (case recv (wait q) of
              None \<Rightarrow> Parked q
            | Some (v, c) \<Rightarrow> Received (q\<lparr>wait := c\<rparr>)))"

function Lock :: "MatLock \<Rightarrow> outcome" where
  "Lock q =
     (case Lock_body q of
        Acquired q' \<Rightarrow> Returns q'
      | Parked q' \<Rightarrow> Blocks q'
      | Received q' \<Rightarrow> Lock q')"
  by pat_completeness auto
termination
  by (relation "measure (\<lambda>q. length (buf (wait q)))")
     (auto simp: Lock_body_def recv_def split: if_splits list.splits)

definition Unlock :: "MatLock \<Rightarrow> outcome" where
  "Unlock q =
     (if \<not> locked q then Panics ''unlock of unlocked qutex'' q
      else (let q1 = q\<lparr>locked := False\<rparr>
            in (case try_send (wait q1) () of
                  Some c \<Rightarrow> Returns (q1\<lparr>wait := c\<rparr>)
                | None \<Rightarrow> Returns q1)))"

text \<open>Sequencing of calls in one goroutine: the next call runs when this one returns.\<close>

fun then_do :: "outcome \<Rightarrow> (MatLock \<Rightarrow> outcome) \<Rightarrow> outcome" where
  "then_do (Returns q) f = f q"
| "then_do (Blocks q) f = Blocks q"
| "then_do (Panics m q) f = Panics m q"

text \<open>
  The single-goroutine scenario of repeated use: \<open>n\<close> rounds of \<^verbatim>\<open>Lock(); Unlock()\<close>.
\<close>

fun cycles :: "nat \<Rightarrow> MatLock \<Rightarrow> outcome" where
  "cycles 0 q = Returns q"
| "cycles (Suc n) q = then_do (then_do (cycles n q) Lock) Unlock"

text \<open>
  The lock states that calls can produce from a fresh lock: the state a call of
  \<^verbatim>\<open>Lock\<close> or \<^verbatim>\<open>Unlock\<close> leaves (however the call ends), and the state between two
  passes of the loop of \<^verbatim>\<open>Lock\<close>.
\<close>

inductive reachable :: "MatLock \<Rightarrow> bool" where
  fresh: "reachable NewQutex"
| after_Lock: "reachable q \<Longrightarrow> reachable (state_of (Lock q))"
| after_pass: "reachable q \<Longrightarrow> Lock_body q = Received q' \<Longrightarrow> reachable q'"
| after_Unlock: "reachable q \<Longrightarrow> reachable (state_of (Unlock q))"

subsection \<open>The acquire loop as the specification words it\<close>

text \<open>
  The specification's acquire: (1) if \<open>held\<close> is false, set it and return at once;
  (2) otherwise wait to receive a signal from the wake queue, and once one is
  received go back to (1) and check \<open>held\<close> again. \<open>held\<close> is the field \<open>locked\<close>, the
  wake queue is the field \<open>wait\<close>.
\<close>

inductive acquire_spec :: "MatLock \<Rightarrow> outcome \<Rightarrow> bool" where
  claim_free: "\<not> locked q \<Longrightarrow> acquire_spec q (Returns (q\<lparr>locked := True\<rparr>))"
| wait_empty: "locked q \<Longrightarrow> buf (wait q) = [] \<Longrightarrow> acquire_spec q (Blocks q)"
| wake_recheck:
    "locked q \<Longrightarrow> buf (wait q) = s # rest
     \<Longrightarrow> acquire_spec (q\<lparr>wait := (wait q)\<lparr>buf := rest\<rparr>\<rparr>) r
     \<Longrightarrow> acquire_spec q r"

subsection \<open>Goroutines sharing one lock\<close>

text \<open>
  Each goroutine repeats \<^verbatim>\<open>Lock()\<close>, its critical section, \<^verbatim>\<open>Unlock()\<close>. Its program
  counter names the statement of \<^verbatim>\<open>MatLock.go\<close> it executes next:
  \<open>Lock_check\<close> is the test \<^verbatim>\<open>if !q.locked\<close> (line 17), \<open>Lock_set\<close> the assignment
  \<^verbatim>\<open>q.locked = true\<close> followed by \<^verbatim>\<open>return\<close> (lines 18-19), \<open>Lock_recv\<close> the receive
  \<^verbatim>\<open><-q.wait\<close> (line 21); \<open>Critical\<close> is the caller's code between the return of \<^verbatim>\<open>Lock\<close>
  and the call of \<^verbatim>\<open>Unlock\<close>; \<open>Unlock_check\<close> is the test of line 26, \<open>Unlock_clear\<close>
  the assignment \<^verbatim>\<open>q.locked = false\<close> (line 29), \<open>Unlock_signal\<close> the \<^verbatim>\<open>select\<close>
  (lines 31-34). The test and the assignment of \<^verbatim>\<open>Lock\<close> are two statements, so
  they are two steps.
\<close>

datatype pc =
  Idle
| Lock_check
| Lock_set
| Lock_recv
| Critical
| Unlock_check
| Unlock_clear
| Unlock_signal
| Panicked

record config =
  shared :: MatLock
  pcs :: "pc list"

definition init :: "nat \<Rightarrow> config" where
  "init n = \<lparr>shared = NewQutex, pcs = replicate n Idle\<rparr>"

definition goto :: "nat \<Rightarrow> pc \<Rightarrow> config \<Rightarrow> config" where
  "goto t p c = c\<lparr>pcs := (pcs c)[t := p]\<rparr>"

text \<open>
  One step of goroutine \<open>t\<close>. \<open>None\<close>: there is no such goroutine, it is parked on
  the receive with the channel empty, or a panic has ended the program.
\<close>

definition step :: "nat \<Rightarrow> config \<Rightarrow> config option" where
  "step t c =
     (if \<not> t < length (pcs c) \<or> Panicked \<in> set (pcs c) then None
      else (case pcs c ! t of
              Idle \<Rightarrow> Some (goto t Lock_check c)
            | Lock_check \<Rightarrow>
                Some (goto t (if \<not> locked (shared c) then Lock_set else Lock_recv) c)
            | Lock_set \<Rightarrow>
                Some (goto t Critical (c\<lparr>shared := (shared c)\<lparr>locked := True\<rparr>\<rparr>))
            | Lock_recv \<Rightarrow>
                (case recv (wait (shared c)) of
                   None \<Rightarrow> None
                 | Some (v, ch) \<Rightarrow>
                     Some (goto t Lock_check (c\<lparr>shared := (shared c)\<lparr>wait := ch\<rparr>\<rparr>)))
            | Critical \<Rightarrow> Some (goto t Unlock_check c)
            | Unlock_check \<Rightarrow>
                Some (goto t (if \<not> locked (shared c) then Panicked else Unlock_clear) c)
            | Unlock_clear \<Rightarrow>
                Some (goto t Unlock_signal (c\<lparr>shared := (shared c)\<lparr>locked := False\<rparr>\<rparr>))
            | Unlock_signal \<Rightarrow>
                (case try_send (wait (shared c)) () of
                   Some ch \<Rightarrow> Some (goto t Idle (c\<lparr>shared := (shared c)\<lparr>wait := ch\<rparr>\<rparr>))
                 | None \<Rightarrow> Some (goto t Idle c))
            | Panicked \<Rightarrow> None))"

text \<open>An interleaving is the list of the goroutines that step, in order.\<close>

fun exec :: "nat list \<Rightarrow> config \<Rightarrow> config option" where
  "exec [] c = Some c"
| "exec (t # ts) c = (case step t c of None \<Rightarrow> None | Some c' \<Rightarrow> exec ts c')"

definition count_pc :: "(pc \<Rightarrow> bool) \<Rightarrow> config \<Rightarrow> nat" where
  "count_pc P c = length (filter P (pcs c))"

text \<open>The holders: past the return of \<^verbatim>\<open>Lock\<close>, before the call of \<^verbatim>\<open>Unlock\<close>.\<close>

definition holders :: "config \<Rightarrow> nat" where
  "holders c = count_pc (\<lambda>p. p = Critical) c"

text \<open>The goroutines that saw the flag free and have not yet set it.\<close>

definition claiming :: "config \<Rightarrow> nat" where
  "claiming c = count_pc (\<lambda>p. p = Lock_set) c"

text \<open>
  An interleaving in which no two goroutines are between the test and the
  assignment of \<^verbatim>\<open>Lock\<close> at the same moment.
\<close>

fun claims_apart :: "nat list \<Rightarrow> config \<Rightarrow> bool" where
  "claims_apart [] c = (claiming c \<le> 1)"
| "claims_apart (t # ts) c =
     (claiming c \<le> 1 \<and> (case step t c of None \<Rightarrow> False | Some c' \<Rightarrow> claims_apart ts c'))"

text \<open>
  For the proof of mutual exclusion: the goroutines that own the flag (from the return
  of \<^verbatim>\<open>Lock\<close> to the assignment of \<^verbatim>\<open>Unlock\<close>), and the invariant that at most one
  goroutine owns it or is about to set it, and that the flag is set while one owns it.
\<close>

definition owns :: "pc \<Rightarrow> bool" where
  "owns p = (p = Critical \<or> p = Unlock_check \<or> p = Unlock_clear)"

definition excl :: "config \<Rightarrow> bool" where
  "excl c = (count_pc (\<lambda>p. p = Lock_set \<or> owns p) c \<le> 1
             \<and> (0 < count_pc owns c \<longrightarrow> locked (shared c)))"

section \<open>Properties\<close>

declare Lock.simps [simp del]

lemma Lock_free: "\<not> locked q \<Longrightarrow> Lock q = Returns (q\<lparr>locked := True\<rparr>)"
  by (simp add: Lock.simps [of q] Lock_body_def)

lemma Lock_held_empty: "locked q \<Longrightarrow> buf (wait q) = [] \<Longrightarrow> Lock q = Blocks q"
  by (simp add: Lock.simps [of q] Lock_body_def recv_def)

lemma Lock_held_signal:
  "locked q \<Longrightarrow> buf (wait q) = v # vs \<Longrightarrow> Lock q = Lock (q\<lparr>wait := (wait q)\<lparr>buf := vs\<rparr>\<rparr>)"
  by (simp add: Lock.simps [of q] Lock_body_def recv_def)

text \<open>
  C6. The constructor returns a lock in the Free state: the flag is false and the
  wake channel has capacity one and holds no signal.
\<close>

theorem NewQutex_free:
  "locked NewQutex = False \<and> cap (wait NewQutex) = 1 \<and> buf (wait NewQutex) = []
   \<and> NewQutex = \<lparr>locked = False, wait = \<lparr>cap = 1, buf = []\<rparr>\<rparr>"
  by (simp add: NewQutex_def make_chan_def)

lemma Lock_closed_form:
  "Lock q = (if \<not> locked q then Returns (q\<lparr>locked := True\<rparr>)
             else Blocks (q\<lparr>wait := (wait q)\<lparr>buf := []\<rparr>\<rparr>))"
proof (induction q rule: Lock.induct)
  case (1 q)
  show ?case
  proof (cases "locked q")
    case False
    then show ?thesis by (simp add: Lock_free)
  next
    case held: True
    show ?thesis
    proof (cases "buf (wait q)")
      case Nil
      with held show ?thesis by (simp add: Lock_held_empty)
    next
      case (Cons v vs)
      with held have body: "Lock_body q = Received (q\<lparr>wait := (wait q)\<lparr>buf := vs\<rparr>\<rparr>)"
        by (simp add: Lock_body_def recv_def)
      from "1" [OF body] held Lock_held_signal [OF held Cons]
      show ?thesis by simp
    qed
  qed
qed

text \<open>
  C1. A pass of the loop of \<^verbatim>\<open>Lock\<close> takes the returning branch exactly when it sees
  the flag false, and it then sets the flag. So whenever \<^verbatim>\<open>Lock\<close> returns, it returned
  through that branch, the flag was false before and is true after, and nothing else
  of the lock has changed: one transition of the flag from false to true.
\<close>

theorem Lock_returns_only_by_claiming:
  "(Lock_body p = Acquired p' \<longleftrightarrow> \<not> locked p \<and> p' = p\<lparr>locked := True\<rparr>)
   \<and> (Lock q = Returns q' \<longrightarrow>
        \<not> locked q \<and> Lock_body q = Acquired q' \<and> q' = q\<lparr>locked := True\<rparr> \<and> locked q')"
proof -
  have a: "Lock_body p = Acquired p' \<longleftrightarrow> \<not> locked p \<and> p' = p\<lparr>locked := True\<rparr>"
    by (auto simp: Lock_body_def split: option.splits)
  have b: "Lock q = Returns q' \<longrightarrow>
        \<not> locked q \<and> Lock_body q = Acquired q' \<and> q' = q\<lparr>locked := True\<rparr> \<and> locked q'"
    by (auto simp: Lock_closed_form Lock_body_def split: if_splits)
  from a b show ?thesis by blast
qed

theorem Lock_returns_only_by_claiming_witness:
  "Lock NewQutex = Returns \<lparr>locked = True, wait = \<lparr>cap = 1, buf = []\<rparr>\<rparr>
   \<and> \<not> locked NewQutex
   \<and> Lock_body NewQutex = Acquired \<lparr>locked = True, wait = \<lparr>cap = 1, buf = []\<rparr>\<rparr>
   \<and> locked \<lparr>locked = True, wait = \<lparr>cap = 1, buf = []\<rparr>\<rparr>"
proof -
  have r: "Lock NewQutex = Returns \<lparr>locked = True, wait = \<lparr>cap = 1, buf = []\<rparr>\<rparr>"
    by (simp add: Lock_free NewQutex_def make_chan_def)
  from r Lock_returns_only_by_claiming
    [of NewQutex "\<lparr>locked = True, wait = \<lparr>cap = 1, buf = []\<rparr>\<rparr>" NewQutex
        "\<lparr>locked = True, wait = \<lparr>cap = 1, buf = []\<rparr>\<rparr>"]
  show ?thesis by simp
qed

text \<open>
  C2. \<^verbatim>\<open>Unlock\<close> panics exactly when the flag is false; the lock at the panic is the
  lock it was called on (the flag still false, the channel as it was); on a fresh lock
  it panics.
\<close>

theorem Unlock_panics_iff_unheld:
  "(is_panic (Unlock q) \<longleftrightarrow> \<not> locked q)
   \<and> (\<not> locked q \<longrightarrow> Unlock q = Panics ''unlock of unlocked qutex'' q)
   \<and> (Unlock q = Panics m q' \<longrightarrow> q' = q \<and> \<not> locked q' \<and> buf (wait q') = buf (wait q))
   \<and> Unlock NewQutex = Panics ''unlock of unlocked qutex'' NewQutex"
  by (auto simp: Unlock_def Let_def NewQutex_def split: option.splits)

theorem Unlock_panics_iff_unheld_witness:
  "\<not> locked NewQutex \<and> is_panic (Unlock NewQutex)
   \<and> Unlock NewQutex = Panics ''unlock of unlocked qutex'' NewQutex
   \<and> buf (wait NewQutex) = []"
  using Unlock_panics_iff_unheld [of NewQutex "''unlock of unlocked qutex''" NewQutex]
  by (simp add: NewQutex_def make_chan_def)

text \<open>
  C4. Called with the flag set, \<^verbatim>\<open>Unlock\<close> returns the lock with the flag cleared and
  one signal added when the channel has room, and with the flag cleared and the channel
  as it was otherwise. For the capacity of one: an empty channel gets the signal, a
  channel holding a signal keeps it and the new one is dropped. \<^verbatim>\<open>Unlock\<close> never blocks.
\<close>

theorem Unlock_held_signals_once:
  "(locked q \<longrightarrow>
      Unlock q =
        Returns (if length (buf (wait q)) < cap (wait q)
                 then q\<lparr>locked := False, wait := (wait q)\<lparr>buf := buf (wait q) @ [()]\<rparr>\<rparr>
                 else q\<lparr>locked := False\<rparr>))
   \<and> (locked q \<and> cap (wait q) = 1 \<and> buf (wait q) = [] \<longrightarrow>
        Unlock q = Returns (q\<lparr>locked := False, wait := (wait q)\<lparr>buf := [()]\<rparr>\<rparr>))
   \<and> (locked q \<and> cap (wait q) = 1 \<and> buf (wait q) \<noteq> [] \<longrightarrow>
        Unlock q = Returns (q\<lparr>locked := False\<rparr>))
   \<and> \<not> is_blocked (Unlock q)"
  by (cases "buf (wait q)") (auto simp: Unlock_def Let_def try_send_def)

theorem Unlock_held_signals_once_witness:
  "Unlock \<lparr>locked = True, wait = \<lparr>cap = 1, buf = []\<rparr>\<rparr>
     = Returns \<lparr>locked = False, wait = \<lparr>cap = 1, buf = [()]\<rparr>\<rparr>
   \<and> Unlock \<lparr>locked = True, wait = \<lparr>cap = 1, buf = [()]\<rparr>\<rparr>
     = Returns \<lparr>locked = False, wait = \<lparr>cap = 1, buf = [()]\<rparr>\<rparr>"
  using Unlock_held_signals_once [of "\<lparr>locked = True, wait = \<lparr>cap = 1, buf = []\<rparr>\<rparr>"]
    Unlock_held_signals_once [of "\<lparr>locked = True, wait = \<lparr>cap = 1, buf = [()]\<rparr>\<rparr>"]
  by simp

lemma Unlock_state_bound:
  "cap (wait q) = 1 \<Longrightarrow> length (buf (wait q)) \<le> 1
   \<Longrightarrow> cap (wait (state_of (Unlock q))) = 1 \<and> length (buf (wait (state_of (Unlock q)))) \<le> 1"
  by (auto simp: Unlock_def Let_def try_send_def)

lemma Lock_state_bound:
  "cap (wait q) = 1 \<Longrightarrow> length (buf (wait q)) \<le> 1
   \<Longrightarrow> cap (wait (state_of (Lock q))) = 1 \<and> length (buf (wait (state_of (Lock q)))) \<le> 1"
  by (simp add: Lock_closed_form)

lemma Lock_body_bound:
  "Lock_body q = Received q' \<Longrightarrow> cap (wait q) = 1 \<Longrightarrow> length (buf (wait q)) \<le> 1
   \<Longrightarrow> cap (wait q') = 1 \<and> length (buf (wait q')) \<le> 1"
  by (auto simp: Lock_body_def recv_def split: if_splits list.splits)

lemma reachable_bound:
  "reachable q \<Longrightarrow> cap (wait q) = 1 \<and> length (buf (wait q)) \<le> 1"
proof (induction rule: reachable.induct)
  case fresh
  show ?case by (simp add: NewQutex_def make_chan_def)
next
  case (after_Lock q)
  then show ?case using Lock_state_bound [of q] by simp
next
  case (after_pass q q')
  then show ?case using Lock_body_bound [of q q'] by simp
next
  case (after_Unlock q)
  then show ?case using Unlock_state_bound [of q] by simp
qed

lemma Unlock_held_one_signal:
  "locked q \<Longrightarrow> cap (wait q) = 1 \<Longrightarrow> length (buf (wait q)) \<le> 1
   \<Longrightarrow> buf (wait (state_of (Unlock q))) = [()]"
  by (cases "buf (wait q)") (auto simp: Unlock_def Let_def try_send_def)

lemma cycles_fresh:
  "cycles n NewQutex =
     Returns \<lparr>locked = False, wait = \<lparr>cap = 1, buf = (if n = 0 then [] else [()])\<rparr>\<rparr>"
proof (induction n)
  case 0
  show ?case by (simp add: NewQutex_def make_chan_def)
next
  case (Suc n)
  then show ?case
    by (simp add: Lock_free Unlock_def Let_def try_send_def)
qed

lemma Unlock_held_state:
  "locked q \<Longrightarrow> cap (wait q) = 1 \<Longrightarrow> length (buf (wait q)) \<le> 1
   \<Longrightarrow> state_of (Unlock q) = q\<lparr>locked := False, wait := (wait q)\<lparr>buf := [()]\<rparr>\<rparr>"
proof (cases "buf (wait q)")
  case Nil
  assume "locked q" and "cap (wait q) = 1"
  with Nil show ?thesis by (simp add: Unlock_def Let_def try_send_def)
next
  case (Cons v vs)
  assume h: "locked q" "cap (wait q) = 1" "length (buf (wait q)) \<le> 1"
  with Cons have b: "buf (wait q) = [()]" by simp
  then have "(wait q)\<lparr>buf := [()]\<rparr> = wait q" by (metis chan.surjective chan.update_convs(2))
  with h b show ?thesis by (simp add: Unlock_def Let_def try_send_def)
qed

lemma releases_one_signal:
  assumes "locked q" and "cap (wait q) = 1" and "length (buf (wait q)) \<le> 1"
  shows "((\<lambda>s. state_of (Unlock s)) ^^ Suc n) q
           = q\<lparr>locked := False, wait := (wait q)\<lparr>buf := [()]\<rparr>\<rparr>"
proof (induction n)
  case 0
  from assms show ?case by (simp add: Unlock_held_state)
next
  case (Suc n)
  have "((\<lambda>s. state_of (Unlock s)) ^^ Suc (Suc n)) q
          = state_of (Unlock (((\<lambda>s. state_of (Unlock s)) ^^ Suc n) q))"
    by simp
  also have "\<dots> = state_of (Unlock (q\<lparr>locked := False, wait := (wait q)\<lparr>buf := [()]\<rparr>\<rparr>))"
    by (simp only: Suc.IH)
  also have "\<dots> = q\<lparr>locked := False, wait := (wait q)\<lparr>buf := [()]\<rparr>\<rparr>"
    by (simp add: Unlock_def)
  finally show ?case .
qed

text \<open>
  C3. In every reachable state of the lock the wake channel has capacity one and holds
  at most one signal, and so it does after one more \<^verbatim>\<open>Lock\<close> or \<^verbatim>\<open>Unlock\<close>. A release
  of a held lock leaves exactly one signal, whether the channel was empty or not; so
  do any \<open>n > 0\<close> rounds of acquire and release with nobody receiving, and so do
  \<open>n > 0\<close> calls of \<^verbatim>\<open>Unlock\<close> in a row on a held lock (the first sends, the later ones
  find the flag false and change nothing).
\<close>

theorem wake_queue_bounded:
  "reachable q \<Longrightarrow>
     cap (wait q) = 1 \<and> length (buf (wait q)) \<le> 1
     \<and> length (buf (wait (state_of (Lock q)))) \<le> 1
     \<and> length (buf (wait (state_of (Unlock q)))) \<le> 1
     \<and> (locked q \<longrightarrow> buf (wait (state_of (Unlock q))) = [()])
     \<and> (0 < n \<longrightarrow> buf (wait (state_of (cycles n NewQutex))) = [()])
     \<and> (locked q \<longrightarrow> buf (wait (((\<lambda>s. state_of (Unlock s)) ^^ Suc k) q)) = [()])"
proof -
  assume r: "reachable q"
  then have b: "cap (wait q) = 1 \<and> length (buf (wait q)) \<le> 1"
    by (rule reachable_bound)
  have l: "length (buf (wait (state_of (Lock q)))) \<le> 1"
    using reachable_bound [OF reachable.after_Lock [OF r]] by simp
  have u: "length (buf (wait (state_of (Unlock q)))) \<le> 1"
    using reachable_bound [OF reachable.after_Unlock [OF r]] by simp
  have o: "locked q \<longrightarrow> buf (wait (state_of (Unlock q))) = [()]"
    using b Unlock_held_one_signal [of q] by simp
  have c: "0 < n \<longrightarrow> buf (wait (state_of (cycles n NewQutex))) = [()]"
    by (simp add: cycles_fresh)
  have m: "locked q \<longrightarrow> buf (wait (((\<lambda>s. state_of (Unlock s)) ^^ Suc k) q)) = [()]"
  proof
    assume "locked q"
    with b have "((\<lambda>s. state_of (Unlock s)) ^^ Suc k) q
                   = q\<lparr>locked := False, wait := (wait q)\<lparr>buf := [()]\<rparr>\<rparr>"
      by (intro releases_one_signal) simp_all
    then show "buf (wait (((\<lambda>s. state_of (Unlock s)) ^^ Suc k) q)) = [()]"
      by (simp del: funpow.simps)
  qed
  from b l u o c m show ?thesis by blast
qed

lemma reachable_held_signalled:
  "reachable \<lparr>locked = True, wait = \<lparr>cap = 1, buf = [()]\<rparr>\<rparr>"
proof -
  have a: "reachable (state_of (Lock NewQutex))"
    by (rule reachable.after_Lock [OF reachable.fresh])
  have b: "reachable (state_of (Unlock (state_of (Lock NewQutex))))"
    by (rule reachable.after_Unlock [OF a])
  have "reachable (state_of (Lock (state_of (Unlock (state_of (Lock NewQutex))))))"
    by (rule reachable.after_Lock [OF b])
  then show ?thesis
    by (simp add: Lock_free NewQutex_def make_chan_def Unlock_def Let_def try_send_def)
qed

theorem wake_queue_bounded_witness:
  "reachable \<lparr>locked = True, wait = \<lparr>cap = 1, buf = [()]\<rparr>\<rparr>
   \<and> Unlock \<lparr>locked = True, wait = \<lparr>cap = 1, buf = [()]\<rparr>\<rparr>
       = Returns \<lparr>locked = False, wait = \<lparr>cap = 1, buf = [()]\<rparr>\<rparr>
   \<and> buf (wait (state_of (Unlock \<lparr>locked = True, wait = \<lparr>cap = 1, buf = [()]\<rparr>\<rparr>))) = [()]
   \<and> buf (wait (state_of (cycles 3 NewQutex))) = [()]
   \<and> buf (wait (((\<lambda>s. state_of (Unlock s)) ^^ Suc 2)
                  \<lparr>locked = True, wait = \<lparr>cap = 1, buf = [()]\<rparr>\<rparr>)) = [()]"
proof -
  have u: "Unlock \<lparr>locked = True, wait = \<lparr>cap = 1, buf = [()]\<rparr>\<rparr>
       = Returns \<lparr>locked = False, wait = \<lparr>cap = 1, buf = [()]\<rparr>\<rparr>"
    by (simp add: Unlock_def Let_def try_send_def)
  from wake_queue_bounded [OF reachable_held_signalled, of 3 2] reachable_held_signalled u
  show ?thesis by simp
qed

text \<open>
  C5. \<^verbatim>\<open>Lock\<close> is the loop the specification describes: the outcomes the
  specification's steps allow from a state are exactly the outcome of \<^verbatim>\<open>Lock\<close> there.
  A received signal is no grant: after it the flag is checked again.
\<close>

theorem Lock_refines_acquire_spec:
  "acquire_spec q r \<longleftrightarrow> Lock q = r"
proof
  assume "acquire_spec q r"
  then show "Lock q = r"
  proof (induction rule: acquire_spec.induct)
    case (claim_free q)
    then show ?case by (simp add: Lock_free)
  next
    case (wait_empty q)
    then show ?case by (simp add: Lock_held_empty)
  next
    case (wake_recheck q s rest r)
    then show ?case by (simp add: Lock_held_signal)
  qed
next
  have "acquire_spec q (Lock q)"
  proof (induction q rule: Lock.induct)
    case (1 q)
    show ?case
    proof (cases "locked q")
      case False
      then show ?thesis by (simp add: Lock_free acquire_spec.claim_free)
    next
      case held: True
      show ?thesis
      proof (cases "buf (wait q)")
        case Nil
        with held show ?thesis by (simp add: Lock_held_empty acquire_spec.wait_empty)
      next
        case (Cons v vs)
        with held have body: "Lock_body q = Received (q\<lparr>wait := (wait q)\<lparr>buf := vs\<rparr>\<rparr>)"
          by (simp add: Lock_body_def recv_def)
        have "acquire_spec (q\<lparr>wait := (wait q)\<lparr>buf := vs\<rparr>\<rparr>)
                (Lock (q\<lparr>wait := (wait q)\<lparr>buf := vs\<rparr>\<rparr>))"
          by (rule "1" [OF body])
        then have "acquire_spec q (Lock (q\<lparr>wait := (wait q)\<lparr>buf := vs\<rparr>\<rparr>))"
          by (rule acquire_spec.wake_recheck [OF held Cons])
        then show ?thesis by (simp add: Lock_held_signal [OF held Cons])
      qed
    qed
  qed
  moreover assume "Lock q = r"
  ultimately show "acquire_spec q r" by simp
qed

theorem Lock_refines_acquire_spec_witness:
  "acquire_spec \<lparr>locked = True, wait = \<lparr>cap = 1, buf = [()]\<rparr>\<rparr>
     (Blocks \<lparr>locked = True, wait = \<lparr>cap = 1, buf = []\<rparr>\<rparr>)
   \<and> acquire_spec NewQutex (Returns \<lparr>locked = True, wait = \<lparr>cap = 1, buf = []\<rparr>\<rparr>)"
  using Lock_refines_acquire_spec [of "\<lparr>locked = True, wait = \<lparr>cap = 1, buf = [()]\<rparr>\<rparr>"
      "Blocks \<lparr>locked = True, wait = \<lparr>cap = 1, buf = []\<rparr>\<rparr>"]
    Lock_refines_acquire_spec [of NewQutex "Returns \<lparr>locked = True, wait = \<lparr>cap = 1, buf = []\<rparr>\<rparr>"]
  by (simp add: Lock_closed_form NewQutex_def make_chan_def)

text \<open>
  C7. From a fresh lock, \<^verbatim>\<open>Lock(); Unlock(); Lock()\<close> in one goroutine: each \<^verbatim>\<open>Lock\<close>
  returns in its first pass, \<^verbatim>\<open>Unlock\<close> returns, and the flag is set at the end. After
  any number \<open>n\<close> of rounds of \<^verbatim>\<open>Lock(); Unlock()\<close> the lock is free again and the next
  \<^verbatim>\<open>Lock\<close> returns in its first pass.
\<close>

theorem lock_reusable:
  "Lock_body NewQutex = Acquired \<lparr>locked = True, wait = \<lparr>cap = 1, buf = []\<rparr>\<rparr>
   \<and> Unlock \<lparr>locked = True, wait = \<lparr>cap = 1, buf = []\<rparr>\<rparr>
       = Returns \<lparr>locked = False, wait = \<lparr>cap = 1, buf = [()]\<rparr>\<rparr>
   \<and> Lock_body \<lparr>locked = False, wait = \<lparr>cap = 1, buf = [()]\<rparr>\<rparr>
       = Acquired \<lparr>locked = True, wait = \<lparr>cap = 1, buf = [()]\<rparr>\<rparr>
   \<and> then_do (then_do (Lock NewQutex) Unlock) Lock
       = Returns \<lparr>locked = True, wait = \<lparr>cap = 1, buf = [()]\<rparr>\<rparr>
   \<and> cycles n NewQutex
       = Returns \<lparr>locked = False, wait = \<lparr>cap = 1, buf = (if n = 0 then [] else [()])\<rparr>\<rparr>
   \<and> Lock_body (state_of (cycles n NewQutex))
       = Acquired \<lparr>locked = True, wait = \<lparr>cap = 1, buf = (if n = 0 then [] else [()])\<rparr>\<rparr>
   \<and> then_do (cycles n NewQutex) Lock
       = Returns \<lparr>locked = True, wait = \<lparr>cap = 1, buf = (if n = 0 then [] else [()])\<rparr>\<rparr>"
proof -
  have once: "Lock_body NewQutex = Acquired \<lparr>locked = True, wait = \<lparr>cap = 1, buf = []\<rparr>\<rparr>
   \<and> Unlock \<lparr>locked = True, wait = \<lparr>cap = 1, buf = []\<rparr>\<rparr>
       = Returns \<lparr>locked = False, wait = \<lparr>cap = 1, buf = [()]\<rparr>\<rparr>
   \<and> Lock_body \<lparr>locked = False, wait = \<lparr>cap = 1, buf = [()]\<rparr>\<rparr>
       = Acquired \<lparr>locked = True, wait = \<lparr>cap = 1, buf = [()]\<rparr>\<rparr>
   \<and> then_do (then_do (Lock NewQutex) Unlock) Lock
       = Returns \<lparr>locked = True, wait = \<lparr>cap = 1, buf = [()]\<rparr>\<rparr>"
    by (simp add: Lock_free Lock_body_def NewQutex_def make_chan_def Unlock_def
        Let_def try_send_def)
  have many: "Lock_body (state_of (cycles n NewQutex))
       = Acquired \<lparr>locked = True, wait = \<lparr>cap = 1, buf = (if n = 0 then [] else [()])\<rparr>\<rparr>
   \<and> then_do (cycles n NewQutex) Lock
       = Returns \<lparr>locked = True, wait = \<lparr>cap = 1, buf = (if n = 0 then [] else [()])\<rparr>\<rparr>"
    by (simp add: cycles_fresh Lock_free Lock_body_def)
  from once many cycles_fresh [of n] show ?thesis by blast
qed

theorem lock_reusable_witness:
  "cycles 2 NewQutex = Returns \<lparr>locked = False, wait = \<lparr>cap = 1, buf = [()]\<rparr>\<rparr>
   \<and> then_do (cycles 2 NewQutex) Lock
       = Returns \<lparr>locked = True, wait = \<lparr>cap = 1, buf = [()]\<rparr>\<rparr>"
  using lock_reusable [of 2] by (simp add: Lock_free)

text \<open>
  C8. \<^verbatim>\<open>Lock\<close> never panics. From every state it either returns with the flag set
  (when it found the flag free) or is parked on the receive with the channel empty
  (when it found the flag set).
\<close>

theorem Lock_no_error_branch:
  "\<not> is_panic (Lock q)
   \<and> (Lock q = Returns (q\<lparr>locked := True\<rparr>) \<and> \<not> locked q
      \<or> Lock q = Blocks (q\<lparr>wait := (wait q)\<lparr>buf := []\<rparr>\<rparr>) \<and> locked q)
   \<and> locked (state_of (Lock q))"
  by (simp add: Lock_closed_form)

theorem Lock_no_error_branch_witness:
  "Lock \<lparr>locked = True, wait = \<lparr>cap = 1, buf = [()]\<rparr>\<rparr>
     = Blocks \<lparr>locked = True, wait = \<lparr>cap = 1, buf = []\<rparr>\<rparr>
   \<and> \<not> is_panic (Lock \<lparr>locked = True, wait = \<lparr>cap = 1, buf = [()]\<rparr>\<rparr>)"
  using Lock_no_error_branch [of "\<lparr>locked = True, wait = \<lparr>cap = 1, buf = [()]\<rparr>\<rparr>"]
  by simp

text \<open>
  C10. Called with the flag free, \<^verbatim>\<open>Lock\<close> changes the flag only and leaves the channel
  as it is. So the signal that an \<^verbatim>\<open>Unlock\<close> with nobody waiting puts into the channel
  is still there after the next \<^verbatim>\<open>Lock\<close>.
\<close>

theorem Lock_free_keeps_channel:
  "(\<not> locked q \<longrightarrow>
      Lock q = Returns (q\<lparr>locked := True\<rparr>) \<and> wait (state_of (Lock q)) = wait q)
   \<and> (locked q \<and> length (buf (wait q)) < cap (wait q) \<longrightarrow>
        then_do (Unlock q) Lock
          = Returns (q\<lparr>wait := (wait q)\<lparr>buf := buf (wait q) @ [()]\<rparr>\<rparr>))"
  by (auto simp: Lock_free Unlock_def Let_def try_send_def)

theorem Lock_free_keeps_channel_witness:
  "Lock \<lparr>locked = False, wait = \<lparr>cap = 1, buf = [()]\<rparr>\<rparr>
     = Returns \<lparr>locked = True, wait = \<lparr>cap = 1, buf = [()]\<rparr>\<rparr>
   \<and> then_do (Unlock \<lparr>locked = True, wait = \<lparr>cap = 1, buf = []\<rparr>\<rparr>) Lock
     = Returns \<lparr>locked = True, wait = \<lparr>cap = 1, buf = [()]\<rparr>\<rparr>"
  using Lock_free_keeps_channel [of "\<lparr>locked = False, wait = \<lparr>cap = 1, buf = [()]\<rparr>\<rparr>"]
    Lock_free_keeps_channel [of "\<lparr>locked = True, wait = \<lparr>cap = 1, buf = []\<rparr>\<rparr>"]
  by simp

lemma length_filter_update:
  "t < length xs \<Longrightarrow>
     length (filter P (xs[t := p])) + (if P (xs ! t) then 1 else 0)
       = length (filter P xs) + (if P p then 1 else 0)"
proof (induction xs arbitrary: t)
  case Nil
  then show ?case by simp
next
  case (Cons x xs)
  show ?case
  proof (cases t)
    case 0
    then show ?thesis by simp
  next
    case (Suc k)
    with Cons.prems have "k < length xs" by simp
    from Cons.IH [OF this] Suc show ?thesis by simp
  qed
qed

lemma count_pc_goto:
  "t < length (pcs c) \<Longrightarrow>
     count_pc P (goto t p c) + (if P (pcs c ! t) then 1 else 0)
       = count_pc P c + (if P p then 1 else 0)"
  by (simp add: count_pc_def goto_def length_filter_update)

lemma count_pc_shared [simp]: "count_pc P (c\<lparr>shared := s\<rparr>) = count_pc P c"
  by (simp add: count_pc_def)

lemma pcs_shared_goto [simp]: "shared (goto t p c) = shared c"
  by (simp add: goto_def)

lemma count_pc_split:
  "count_pc (\<lambda>p. p = Lock_set \<or> owns p) c = claiming c + count_pc owns c"
proof -
  have "length (filter (\<lambda>p. p = Lock_set \<or> owns p) xs)
        = length (filter (\<lambda>p. p = Lock_set) xs) + length (filter owns xs)" for xs
    by (induction xs) (auto simp: owns_def)
  then show ?thesis by (simp add: count_pc_def claiming_def)
qed

lemma count_pc_pos: "t < length (pcs c) \<Longrightarrow> P (pcs c ! t) \<Longrightarrow> 0 < count_pc P c"
proof -
  assume "t < length (pcs c)" and "P (pcs c ! t)"
  then have "pcs c ! t \<in> set (filter P (pcs c))" by simp
  then have "filter P (pcs c) \<noteq> []" by (metis empty_iff empty_set)
  then show ?thesis by (simp add: count_pc_def)
qed

lemma step_excl:
  assumes inv: "excl c" and st: "step t c = Some c'" and apart: "claiming c' \<le> 1"
  shows "excl c'"
proof -
  from st have t: "t < length (pcs c)"
    by (auto simp: step_def split: if_splits)
  note g = count_pc_goto [OF t]
  let ?all = "\<lambda>p. p = Lock_set \<or> owns p"
  show ?thesis
  proof (cases "pcs c ! t")
    case Idle
    with st t have c': "c' = goto t Lock_check c"
      by (auto simp: step_def split: if_splits)
    from inv Idle g [of owns Lock_check] g [of ?all Lock_check]
    show ?thesis by (simp add: c' excl_def owns_def)
  next
    case Lock_check
    show ?thesis
    proof (cases "locked (shared c)")
      case True
      with st t Lock_check have c': "c' = goto t Lock_recv c"
        by (auto simp: step_def split: if_splits)
      from inv Lock_check g [of owns Lock_recv] g [of ?all Lock_recv]
      show ?thesis by (simp add: c' excl_def owns_def)
    next
      case False
      with st t Lock_check have c': "c' = goto t Lock_set c"
        by (auto simp: step_def split: if_splits)
      from inv False have "count_pc owns c = 0" by (auto simp: excl_def)
      with Lock_check g [of owns Lock_set] have "count_pc owns c' = 0"
        by (simp add: c' owns_def)
      with apart show ?thesis by (simp add: excl_def count_pc_split)
    qed
  next
    case Lock_set
    with st t
    have c': "c' = goto t Critical (c\<lparr>shared := (shared c)\<lparr>locked := True\<rparr>\<rparr>)"
      by (auto simp: step_def split: if_splits)
    have t': "t < length (pcs (c\<lparr>shared := (shared c)\<lparr>locked := True\<rparr>\<rparr>))"
      using t by simp
    from inv Lock_set count_pc_goto [OF t', of ?all Critical]
    show ?thesis by (simp add: c' excl_def owns_def)
  next
    case Lock_recv
    with st t obtain ch where
      c': "c' = goto t Lock_check (c\<lparr>shared := (shared c)\<lparr>wait := ch\<rparr>\<rparr>)"
      by (auto simp: step_def split: if_splits option.splits)
    have t': "t < length (pcs (c\<lparr>shared := (shared c)\<lparr>wait := ch\<rparr>\<rparr>))"
      using t by simp
    from inv Lock_recv count_pc_goto [OF t', of ?all Lock_check]
      count_pc_goto [OF t', of owns Lock_check]
    show ?thesis by (simp add: c' excl_def owns_def)
  next
    case Critical
    with st t have c': "c' = goto t Unlock_check c"
      by (auto simp: step_def split: if_splits)
    from inv Critical g [of owns Unlock_check] g [of ?all Unlock_check]
    show ?thesis by (simp add: c' excl_def owns_def)
  next
    case Unlock_check
    with t have "0 < count_pc owns c"
      by (intro count_pc_pos [of t]) (simp_all add: owns_def)
    with inv have "locked (shared c)" by (simp add: excl_def)
    with st t Unlock_check have c': "c' = goto t Unlock_clear c"
      by (auto simp: step_def split: if_splits)
    from inv Unlock_check g [of owns Unlock_clear] g [of ?all Unlock_clear]
    show ?thesis by (simp add: c' excl_def owns_def)
  next
    case Unlock_clear
    with st t
    have c': "c' = goto t Unlock_signal (c\<lparr>shared := (shared c)\<lparr>locked := False\<rparr>\<rparr>)"
      by (auto simp: step_def split: if_splits)
    have t': "t < length (pcs (c\<lparr>shared := (shared c)\<lparr>locked := False\<rparr>\<rparr>))"
      using t by simp
    from inv have "count_pc ?all c \<le> 1" by (simp add: excl_def)
    with Unlock_clear count_pc_goto [OF t', of ?all Unlock_signal]
    have "count_pc ?all c' = 0" by (simp add: c' owns_def)
    then show ?thesis by (simp add: excl_def count_pc_split)
  next
    case Unlock_signal
    show ?thesis
    proof (cases "try_send (wait (shared c)) ()")
      case None
      with st t Unlock_signal have c': "c' = goto t Idle c"
        by (auto simp: step_def split: if_splits)
      from inv Unlock_signal g [of owns Idle] g [of ?all Idle]
      show ?thesis by (simp add: c' excl_def owns_def)
    next
      case (Some ch)
      with st t Unlock_signal
      have c': "c' = goto t Idle (c\<lparr>shared := (shared c)\<lparr>wait := ch\<rparr>\<rparr>)"
        by (auto simp: step_def split: if_splits)
      have t': "t < length (pcs (c\<lparr>shared := (shared c)\<lparr>wait := ch\<rparr>\<rparr>))"
        using t by simp
      from inv Unlock_signal count_pc_goto [OF t', of ?all Idle]
        count_pc_goto [OF t', of owns Idle]
      show ?thesis by (simp add: c' excl_def owns_def)
    qed
  next
    case Panicked
    with st t show ?thesis by (auto simp: step_def split: if_splits)
  qed
qed

lemma exec_excl:
  "excl c \<Longrightarrow> claims_apart sched c \<Longrightarrow> exec sched c = Some c' \<Longrightarrow> excl c'"
proof (induction sched arbitrary: c)
  case Nil
  then show ?case by simp
next
  case (Cons t ts)
  from Cons.prems(3) obtain c1 where st: "step t c = Some c1" and ex: "exec ts c1 = Some c'"
    by (auto split: option.splits)
  from Cons.prems(2) st have ap: "claims_apart ts c1" by simp
  then have "claiming c1 \<le> 1" by (cases ts) simp_all
  with Cons.prems(1) st have "excl c1" by (rule step_excl)
  from Cons.IH [OF this ap ex] show ?case .
qed

lemma excl_init: "excl (init n)"
  by (simp add: excl_def init_def count_pc_def owns_def)

lemma holders_le_owners: "holders c \<le> count_pc (\<lambda>p. p = Lock_set \<or> owns p) c"
proof -
  have "length (filter (\<lambda>p. p = Critical) xs)
        \<le> length (filter (\<lambda>p. p = Lock_set \<or> owns p) xs)" for xs
    by (induction xs) (auto simp: owns_def)
  then show ?thesis by (simp add: holders_def count_pc_def)
qed

text \<open>
  C9, as amended. In every interleaving in which no two goroutines are between the
  test and the assignment of \<^verbatim>\<open>Lock\<close> at the same moment, at most one goroutine is
  past its acquire and before its release.
\<close>

theorem mutual_exclusion_when_claims_apart:
  "claims_apart sched (init n) \<Longrightarrow> exec sched (init n) = Some c \<Longrightarrow> holders c \<le> 1"
proof -
  assume "claims_apart sched (init n)" and "exec sched (init n) = Some c"
  with excl_init have "excl c" by (rule exec_excl)
  then have "count_pc (\<lambda>p. p = Lock_set \<or> owns p) c \<le> 1" by (simp add: excl_def)
  with holders_le_owners [of c] show ?thesis by simp
qed

lemma exec_handover:
  "exec [0, 0, 0, 1, 1, 0, 0, 0, 0, 1, 1, 1] (init 2)
     = Some \<lparr>shared = \<lparr>locked = True, wait = \<lparr>cap = 1, buf = []\<rparr>\<rparr>, pcs = [Idle, Critical]\<rparr>"
  by code_simp

theorem mutual_exclusion_when_claims_apart_witness:
  "claims_apart [0, 0, 0, 1, 1, 0, 0, 0, 0, 1, 1, 1] (init 2)
   \<and> exec [0, 0, 0, 1, 1, 0, 0, 0, 0, 1, 1, 1] (init 2)
     = Some \<lparr>shared = \<lparr>locked = True, wait = \<lparr>cap = 1, buf = []\<rparr>\<rparr>, pcs = [Idle, Critical]\<rparr>
   \<and> holders \<lparr>shared = \<lparr>locked = True, wait = \<lparr>cap = 1, buf = []\<rparr>\<rparr>, pcs = [Idle, Critical]\<rparr> \<le> 1"
proof -
  have a: "claims_apart [0, 0, 0, 1, 1, 0, 0, 0, 0, 1, 1, 1] (init 2)"
    by code_simp
  from a exec_handover mutual_exclusion_when_claims_apart [OF a exec_handover]
  show ?thesis by simp
qed

text \<open>
  C9 as stated fails: two goroutines both test the flag before either sets it, and
  both return from \<^verbatim>\<open>Lock\<close>.
\<close>

theorem mutual_exclusion_counterexample:
  "exec [0, 1, 0, 1, 0, 1] (init 2)
     = Some \<lparr>shared = \<lparr>locked = True, wait = \<lparr>cap = 1, buf = []\<rparr>\<rparr>, pcs = [Critical, Critical]\<rparr>
   \<and> holders \<lparr>shared = \<lparr>locked = True, wait = \<lparr>cap = 1, buf = []\<rparr>\<rparr>, pcs = [Critical, Critical]\<rparr> = 2"
  by code_simp

end
